theory Spec2Isabelle
  imports Complex_Main
begin

section \<open>Values, endpoints and exceptions\<close>

text \<open>
  A shallow embedding of \<^verbatim>\<open>aioes/transport.py\<close>. Python values that reach the
  transport untyped (the entries of an endpoint list, the decoded discovery
  document) are kept as tagged values, every \<^verbatim>\<open>raise\<close> is a value of \<open>exn\<close>,
  and a function that can raise returns \<open>exn + 'a\<close> with \<open>Inl\<close> the exception.
  A coroutine runs from its call to its return: what other tasks could do to
  the transport while one is suspended at a \<^verbatim>\<open>yield from\<close> is not modelled.
  Times are real numbers, without the rounding of Python's floats.
\<close>

datatype pyval = PNone | PInt int | PStr string

text \<open>\<^verbatim>\<open>Endpoint = collections.namedtuple('TCPEndpoint', 'host port')\<close>: the
  fields hold whatever they are given.\<close>

datatype endpoint = Endpoint (host: pyval) (port: pyval)

text \<open>An entry of an endpoint list as a caller can write it: an \<open>Endpoint\<close>, a
  \<^verbatim>\<open>dict\<close> (its items, keys distinct), or any other hashable atom.\<close>

datatype raw = REndpoint endpoint | RDict "(string \<times> pyval) list" | ROther pyval

datatype exn =
    RuntimeError string
  | KeyError string
  | TypeError string
  | ValueError string
  | AttributeError string
  | ConnectionError string
  | TransportError string string
  | OtherError string

text \<open>The result of \<^verbatim>\<open>json.loads\<close>; an object is the list of its items in
  iteration order (keys distinct). A number is kept as an integer: the
  transport reads no number of the document.\<close>

datatype json =
    JNull
  | JBool bool
  | JNum int
  | JStr string
  | JArr "json list"
  | JObj "(string \<times> json) list"

section \<open>ADDRESS\_RE\<close>

text \<open>
  The pattern \<^verbatim>\<open>/(?P<host>[\.:0-9a-f]*):(?P<port>[0-9]+)\]?$\<close> is a
  sequence of quantified character classes, some of them named groups, closed
  by \<^verbatim>\<open>$\<close>. \<open>rx_match\<close> is Python's backtracking matcher on such sequences:
  a quantifier is greedy (it takes the longest run first and gives characters
  back one at a time), \<^verbatim>\<open>$\<close> holds at the end of the string and just before
  a newline that is its last character, and \<open>rx_search\<close> is \<^verbatim>\<open>search\<close>: the
  first start position, from the left, at which the pattern matches. The
  result is the match's \<^verbatim>\<open>groupdict()\<close>.
\<close>

datatype quant = One | Star | Plus | Opt

datatype item = Chars "char \<Rightarrow> bool" quant "string option" | EndAnchor

fun try_down :: "(nat \<Rightarrow> 'a option) \<Rightarrow> nat \<Rightarrow> nat \<Rightarrow> 'a option" where
  "try_down f lo 0 = (if lo = 0 then f 0 else None)"
| "try_down f lo (Suc k) =
     (if Suc k < lo then None
      else case f (Suc k) of Some r \<Rightarrow> Some r | None \<Rightarrow> try_down f lo k)"

definition quant_lo :: "quant \<Rightarrow> nat" where
  "quant_lo q = (case q of One \<Rightarrow> 1 | Plus \<Rightarrow> 1 | Star \<Rightarrow> 0 | Opt \<Rightarrow> 0)"

definition quant_hi :: "quant \<Rightarrow> nat \<Rightarrow> nat" where
  "quant_hi q avail = (case q of One \<Rightarrow> min 1 avail | Opt \<Rightarrow> min 1 avail
                        | Star \<Rightarrow> avail | Plus \<Rightarrow> avail)"

definition at_end :: "string \<Rightarrow> bool" where
  "at_end s = (s = [] \<or> s = [CHR 0x0A])"

definition bind_group :: "string option \<Rightarrow> string \<Rightarrow> (string \<times> string) list
                            \<Rightarrow> (string \<times> string) list" where
  "bind_group g v caps = (case g of None \<Rightarrow> caps | Some name \<Rightarrow> (name, v) # caps)"

fun rx_match :: "item list \<Rightarrow> string \<Rightarrow> (string \<times> string) list option" where
  "rx_match [] s = Some []"
| "rx_match (EndAnchor # its) s = (if at_end s then rx_match its s else None)"
| "rx_match (Chars cls q g # its) s =
     try_down
       (\<lambda>k. case rx_match its (drop k s) of
              None \<Rightarrow> None
            | Some caps \<Rightarrow> Some (bind_group g (take k s) caps))
       (quant_lo q)
       (quant_hi q (length (takeWhile cls s)))"

fun rx_search :: "item list \<Rightarrow> string \<Rightarrow> (string \<times> string) list option" where
  "rx_search p [] = rx_match p []"
| "rx_search p (c # s) =
     (case rx_match p (c # s) of Some r \<Rightarrow> Some r | None \<Rightarrow> rx_search p s)"

definition is_digit :: "char \<Rightarrow> bool" where
  "is_digit c = (c \<in> set ''0123456789'')"

definition is_hostchar :: "char \<Rightarrow> bool" where
  "is_hostchar c = (c \<in> set ''.:0123456789abcdef'')"

definition ADDRESS_RE :: "item list" where
  "ADDRESS_RE =
     [Chars (\<lambda>c. c = CHR ''/'') One None,
      Chars is_hostchar Star (Some ''host''),
      Chars (\<lambda>c. c = CHR '':'') One None,
      Chars is_digit Plus (Some ''port''),
      Chars (\<lambda>c. c = CHR '']'') Opt None,
      EndAnchor]"

text \<open>\<^verbatim>\<open>int(s)\<close> on a string of ASCII digits.\<close>

definition digit_val :: "char \<Rightarrow> int" where
  "digit_val c = int (of_char c) - 48"

definition int_of_digits :: "string \<Rightarrow> int" where
  "int_of_digits s = foldl (\<lambda>n c. 10 * n + digit_val c) 0 s"

section \<open>Connections, the pool and the transport's state\<close>

text \<open>A \<^verbatim>\<open>Connection\<close> is an object: \<open>cid\<close> is its identity, \<open>endpoint\<close> the
  value it was constructed from.\<close>

datatype connection = Connection (cid: nat) (endpoint: raw)

text \<open>A request: method, url, body as sent, timeout.\<close>

datatype request = Req string string "string option" "real option"

datatype outcome = Response int string | Raises exn

datatype event =
    NewConnection nat
  | PoolDetach nat
  | PoolClose "nat list"
  | PoolMarkDead nat
  | PoolMarkLive nat
  | PoolGet
  | SniffCall
  | Request nat request

record pool =
  connections :: "connection list"
  dead :: "nat list"

text \<open>
  The transport's attributes, followed by the bookkeeping of the run: \<open>step\<close>
  counts the interactions with the outside (network calls, clock readings,
  shuffles, selections), \<open>next_id\<close> is the identity of the next object
  constructed, \<open>closed_ids\<close> lists the connections that have been closed, and
  \<open>trace\<close> records what the transport did, in order. An attribute that may
  never have been assigned (\<^verbatim>\<open>_sniff_on_connection_fail\<close>) is an option: \<open>None\<close>
  is the missing attribute.
\<close>

record state =
  endpoints :: "raw list"
  pool :: pool
  seed_connections :: "connection list"
  sniffer_timeout :: "real option"
  sniff_timeout :: "real option"
  last_sniff :: real
  max_retries :: int
  sniff_on_connection_fail :: "bool option"
  step :: nat
  next_id :: nat
  closed_ids :: "nat list"
  trace :: "event list"

text \<open>
  What the transport cannot decide: the outcome of a network call on a
  connection, the clock, \<^verbatim>\<open>random.shuffle\<close>, the pool's choice of a connection,
  and the JSON codec. Each is read at the current \<open>step\<close>.
\<close>

record world =
  net :: "nat \<Rightarrow> connection \<Rightarrow> request \<Rightarrow> outcome"
  clock :: "nat \<Rightarrow> real"
  shuffle :: "nat \<Rightarrow> connection list \<Rightarrow> connection list"
  select :: "nat \<Rightarrow> pool \<Rightarrow> exn + connection"
  json_loads :: "string \<Rightarrow> exn + json"
  json_dumps :: "json \<Rightarrow> string"

definition emit :: "event \<Rightarrow> state \<Rightarrow> state" where
  "emit e s = s\<lparr>trace := trace s @ [e]\<rparr>"

definition tick :: "state \<Rightarrow> state" where
  "tick s = s\<lparr>step := Suc (step s)\<rparr>"

text \<open>\<^verbatim>\<open>time.monotonic()\<close>\<close>

definition monotonic :: "world \<Rightarrow> state \<Rightarrow> real \<times> state" where
  "monotonic w s = (clock w (step s), tick s)"

text \<open>\<^verbatim>\<open>Connection(endpoint, loop=...)\<close>\<close>

definition new_connection :: "raw \<Rightarrow> state \<Rightarrow> connection \<times> state" where
  "new_connection e s =
     (Connection (next_id s) e,
      emit (NewConnection (next_id s)) (s\<lparr>next_id := Suc (next_id s)\<rparr>))"

text \<open>\<^verbatim>\<open>c.perform_request(...)\<close>, also under \<^verbatim>\<open>asyncio.wait_for\<close>: a timeout is
  one of the exceptions the call can raise.\<close>

definition conn_perform_request ::
  "world \<Rightarrow> connection \<Rightarrow> request \<Rightarrow> state \<Rightarrow> outcome \<times> state" where
  "conn_perform_request w c rq s =
     (net w (step s) c rq, tick (emit (Request (cid c) rq) s))"

subsection \<open>The connection pool\<close>

text \<open>Modelled from the spec: \<^verbatim>\<open>ConnectionPool\<close> (\<^verbatim>\<open>aioes/pool.py\<close>) is not among
  the sources. A pool is constructed from an ordered list of connections and
  keeps the health marks; \<^verbatim>\<open>detach\<close> removes a connection without closing it,
  \<^verbatim>\<open>close\<close> releases every connection the pool still holds, \<^verbatim>\<open>mark_dead\<close>
  and \<^verbatim>\<open>mark_live\<close> set and clear a connection's mark, and which connection
  \<^verbatim>\<open>get_connection\<close> returns (or that it fails) is the pool's own policy,
  read from the world.\<close>

definition ConnectionPool :: "connection list \<Rightarrow> pool" where
  "ConnectionPool cs = \<lparr>connections = cs, dead = []\<rparr>"

definition pool_detach :: "connection \<Rightarrow> state \<Rightarrow> state" where
  "pool_detach c s =
     emit (PoolDetach (cid c))
       (s\<lparr>pool := (pool s)\<lparr>connections := filter (\<lambda>d. cid d \<noteq> cid c) (connections (pool s)),
                              dead := removeAll (cid c) (dead (pool s))\<rparr>\<rparr>)"

definition pool_close :: "state \<Rightarrow> state" where
  "pool_close s =
     emit (PoolClose (map cid (connections (pool s))))
       (s\<lparr>closed_ids := closed_ids s @ map cid (connections (pool s))\<rparr>)"

definition pool_mark_dead :: "connection \<Rightarrow> state \<Rightarrow> state" where
  "pool_mark_dead c s =
     emit (PoolMarkDead (cid c)) (s\<lparr>pool := (pool s)\<lparr>dead := cid c # dead (pool s)\<rparr>\<rparr>)"

definition pool_mark_live :: "connection \<Rightarrow> state \<Rightarrow> state" where
  "pool_mark_live c s =
     emit (PoolMarkLive (cid c))
       (s\<lparr>pool := (pool s)\<lparr>dead := removeAll (cid c) (dead (pool s))\<rparr>\<rparr>)"

definition pool_get_connection :: "world \<Rightarrow> state \<Rightarrow> (exn + connection) \<times> state" where
  "pool_get_connection w s = (select w (step s) (pool s), tick (emit PoolGet s))"

section \<open>Topology management\<close>

text \<open>\<^verbatim>\<open>Transport._convert_endpoints\<close>: the loop appends to \<open>ret\<close> and raises at
  the first entry it cannot convert.\<close>

fun convert_loop :: "endpoint list \<Rightarrow> raw list \<Rightarrow> exn + endpoint list" where
  "convert_loop ret [] = Inr ret"
| "convert_loop ret (REndpoint e # es) = convert_loop (ret @ [e]) es"
| "convert_loop ret (RDict d # es) =
     (case map_of d ''host'' of
        None \<Rightarrow> Inl (KeyError ''host'')
      | Some h \<Rightarrow>
          convert_loop
            (ret @ [Endpoint h (case map_of d ''port'' of None \<Rightarrow> PInt 9200 | Some p \<Rightarrow> p)])
            es)"
| "convert_loop ret (ROther v # es) = Inl (RuntimeError ''Bad endpoint'')"

definition convert_endpoints :: "raw list \<Rightarrow> exn + endpoint list" where
  "convert_endpoints es = convert_loop [] es"

text \<open>A \<^verbatim>\<open>dict\<close> cannot be hashed: using one as a key, or testing it with
  \<^verbatim>\<open>in\<close> against a dictionary, raises \<^verbatim>\<open>TypeError\<close>.\<close>

fun hashable :: "raw \<Rightarrow> bool" where
  "hashable (RDict d) = False"
| "hashable (REndpoint e) = True"
| "hashable (ROther v) = True"

text \<open>\<^verbatim>\<open>{c.endpoint: c for c in self._pool.connections}\<close>: a later connection
  replaces an earlier one with the same endpoint.\<close>

fun index_connections ::
  "(raw \<times> connection) list \<Rightarrow> connection list \<Rightarrow> exn + (raw \<times> connection) list" where
  "index_connections acc [] = Inr acc"
| "index_connections acc (c # cs) =
     (if hashable (endpoint c) then index_connections ((endpoint c, c) # acc) cs
      else Inl (TypeError ''unhashable type''))"

fun reinit_loop ::
  "(raw \<times> connection) list \<Rightarrow> raw list \<Rightarrow> connection list \<Rightarrow> state
     \<Rightarrow> (exn + connection list) \<times> state" where
  "reinit_loop old [] conns s = (Inr conns, s)"
| "reinit_loop old (e # es) conns s =
     (if \<not> hashable e then (Inl (TypeError ''unhashable type''), s)
      else case map_of old e of
        Some c \<Rightarrow> reinit_loop old es (conns @ [c]) (pool_detach c s)
      | None \<Rightarrow>
          (case new_connection e s of (c, s') \<Rightarrow> reinit_loop old es (conns @ [c]) s'))"

text \<open>\<^verbatim>\<open>Transport._reinitialize_endpoints\<close>\<close>

definition reinitialize_endpoints :: "world \<Rightarrow> state \<Rightarrow> (exn + unit) \<times> state" where
  "reinitialize_endpoints w s =
     (case index_connections [] (connections (pool s)) of
        Inl x \<Rightarrow> (Inl x, s)
      | Inr old \<Rightarrow>
          (case reinit_loop old (endpoints s) [] s of
             (Inl x, s1) \<Rightarrow> (Inl x, s1)
           | (Inr conns, s1) \<Rightarrow>
               (let s2 = pool_close s1;
                    shuffled = shuffle w (step s2) conns
                in (Inr (), (tick s2)\<lparr>pool := ConnectionPool shuffled\<rparr>))))"

text \<open>The \<^verbatim>\<open>endpoints\<close> property and its setter.\<close>

definition get_endpoints :: "state \<Rightarrow> raw list" where
  "get_endpoints s = endpoints s"

definition set_endpoints :: "world \<Rightarrow> raw list \<Rightarrow> state \<Rightarrow> (exn + unit) \<times> state" where
  "set_endpoints w es s = reinitialize_endpoints w (s\<lparr>endpoints := es\<rparr>)"

section \<open>Discovery\<close>

text \<open>The three exception classes the candidate loop catches.\<close>

fun caught :: "exn \<Rightarrow> bool" where
  "caught (ConnectionError m) = True"
| "caught (TypeError m) = True"
| "caught (ValueError m) = True"
| "caught (RuntimeError m) = False"
| "caught (KeyError m) = False"
| "caught (AttributeError m) = False"
| "caught (TransportError a m) = False"
| "caught (OtherError m) = False"

definition sniff_request :: "state \<Rightarrow> request" where
  "sniff_request s = Req ''GET'' ''/_nodes/_all/clear'' None (sniff_timeout s)"

text \<open>The \<^verbatim>\<open>for c in itertools.chain(...)\<close> loop with its \<^verbatim>\<open>else\<close> clause: the
  empty list is the exhausted iterator.\<close>

fun sniff_loop :: "world \<Rightarrow> connection list \<Rightarrow> state \<Rightarrow> (exn + json) \<times> state" where
  "sniff_loop w [] s = (Inl (TransportError ''N/A'' ''Unable to sniff endpoints.''), s)"
| "sniff_loop w (c # cs) s =
     (case conn_perform_request w c (sniff_request s) s of
        (Raises e, s1) \<Rightarrow> if caught e then sniff_loop w cs s1 else (Inl e, s1)
      | (Response status node_info, s1) \<Rightarrow>
          (case json_loads w node_info of
             Inl e \<Rightarrow> if caught e then sniff_loop w cs s1 else (Inl e, s1)
           | Inr j \<Rightarrow> (Inr j, s1)))"

text \<open>\<^verbatim>\<open>node_info['nodes'].values()\<close>\<close>

fun nodes_of :: "json \<Rightarrow> exn + json list" where
  "nodes_of (JObj doc) =
     (case map_of doc ''nodes'' of
        None \<Rightarrow> Inl (KeyError ''nodes'')
      | Some (JObj nodes) \<Rightarrow> Inr (map snd nodes)
      | Some other \<Rightarrow> Inl (AttributeError ''values''))"
| "nodes_of other = Inl (TypeError ''not subscriptable by a string'')"

text \<open>\<^verbatim>\<open>d.get(key, default)\<close>\<close>

definition dict_get :: "(string \<times> 'a) list \<Rightarrow> string \<Rightarrow> 'a \<Rightarrow> 'a" where
  "dict_get d k dflt = (case map_of d k of None \<Rightarrow> dflt | Some v \<Rightarrow> v)"

text \<open>\<^verbatim>\<open>int(s)\<close>, on the strings the \<^verbatim>\<open>port\<close> group can hold (ASCII digits).
  Python's \<^verbatim>\<open>int\<close> also reads signs, blanks and underscores, which the group
  never captures; on every string that is not all digits the model raises.\<close>

definition py_int :: "string \<Rightarrow> exn + int" where
  "py_int s = (if s \<noteq> [] \<and> list_all is_digit s then Inr (int_of_digits s)
               else Inl (ValueError ''invalid literal for int()''))"

text \<open>The condition of line 155 to 157, on the \<^verbatim>\<open>attributes\<close> dictionary.\<close>

definition dedicated_master :: "(string \<times> json) list \<Rightarrow> bool" where
  "dedicated_master attrs =
     (dict_get attrs ''data'' (JStr ''true'') = JStr ''false'' \<and>
      dict_get attrs ''client'' (JStr ''false'') = JStr ''false'' \<and>
      dict_get attrs ''master'' (JStr ''true'') = JStr ''true'')"

text \<open>The body of the loop over the nodes: \<open>Inr None\<close> is a node that adds no
  endpoint (\<^verbatim>\<open>continue\<close>, or the filter), \<open>Inr (Some e)\<close> the endpoint appended.\<close>

fun sniff_node :: "json \<Rightarrow> exn + endpoint option" where
  "sniff_node (JObj n) =
     (case dict_get n ''http_address'' (JStr []) of
        JStr a \<Rightarrow>
          (case rx_search ADDRESS_RE a of
             None \<Rightarrow> Inr None
           | Some dct \<Rightarrow>
               (case map_of dct ''host'' of
                  None \<Rightarrow> Inl (KeyError ''host'')
                | Some h \<Rightarrow>
                    (case (case map_of dct ''port'' of
                             Some p \<Rightarrow> py_int p
                           | None \<Rightarrow> Inr 9200) of
                       Inl e \<Rightarrow> Inl e
                     | Inr prt \<Rightarrow>
                         (case dict_get n ''attributes'' (JObj []) of
                            JObj attrs \<Rightarrow>
                              if \<not> dedicated_master attrs
                              then Inr (Some (Endpoint (PStr h) (PInt prt)))
                              else Inr None
                          | other \<Rightarrow> Inl (AttributeError ''get'')))))
      | other \<Rightarrow> Inl (TypeError ''expected string''))"
| "sniff_node other = Inl (AttributeError ''get'')"

fun sniff_nodes :: "endpoint list \<Rightarrow> json list \<Rightarrow> exn + endpoint list" where
  "sniff_nodes eps [] = Inr eps"
| "sniff_nodes eps (n # ns) =
     (case sniff_node n of
        Inl e \<Rightarrow> Inl e
      | Inr None \<Rightarrow> sniff_nodes eps ns
      | Inr (Some ep) \<Rightarrow> sniff_nodes (eps @ [ep]) ns)"

definition parse_node_info :: "json \<Rightarrow> exn + endpoint list" where
  "parse_node_info node_info =
     (case nodes_of node_info of Inl e \<Rightarrow> Inl e | Inr ns \<Rightarrow> sniff_nodes [] ns)"

text \<open>Lines 116 to 139 of \<^verbatim>\<open>Transport.sniff_endpoints\<close>: the previous value of
  \<^verbatim>\<open>_last_sniff\<close> is kept, and the \<^verbatim>\<open>try\<close> block holds the clock reading and the
  candidate loop; its bare \<^verbatim>\<open>except\<close> puts the previous value back and raises
  again.\<close>

definition sniff_try :: "world \<Rightarrow> state \<Rightarrow> (exn + json) \<times> state" where
  "sniff_try w s =
     (let previous_sniff = last_sniff s
      in case monotonic w s of
           (now, s1) \<Rightarrow>
             (case sniff_loop w (connections (pool s1) @ seed_connections s1)
                     (s1\<lparr>last_sniff := now\<rparr>) of
                (Inl e, s2) \<Rightarrow> (Inl e, s2\<lparr>last_sniff := previous_sniff\<rparr>)
              | (Inr node_info, s2) \<Rightarrow> (Inr node_info, s2)))"

text \<open>\<^verbatim>\<open>Transport.sniff_endpoints\<close>: what follows the \<^verbatim>\<open>try\<close> block runs outside
  it.\<close>

definition sniff_endpoints :: "world \<Rightarrow> state \<Rightarrow> (exn + unit) \<times> state" where
  "sniff_endpoints w s =
     (case sniff_try w (emit SniffCall s) of
        (Inl e, s2) \<Rightarrow> (Inl e, s2)
      | (Inr node_info, s2) \<Rightarrow>
          (case parse_node_info node_info of
             Inl e \<Rightarrow> (Inl e, s2)
           | Inr eps \<Rightarrow>
               if eps = []
               then (Inl (TransportError ''N/A''
                            ''Unable to sniff endpoints - no viable endpoints found.''), s2)
               else set_endpoints w (map REndpoint eps) s2))"

section \<open>Connection acquisition and failure handling\<close>

text \<open>\<^verbatim>\<open>Transport.get_connection\<close>: \<^verbatim>\<open>None\<close> and \<^verbatim>\<open>0\<close> are the false values
  of \<^verbatim>\<open>_sniffer_timeout\<close>.\<close>

definition get_connection :: "world \<Rightarrow> state \<Rightarrow> (exn + connection) \<times> state" where
  "get_connection w s =
     (case sniffer_timeout s of
        None \<Rightarrow> pool_get_connection w s
      | Some t \<Rightarrow>
          if t = 0 then pool_get_connection w s
          else (case monotonic w s of
                  (now, s1) \<Rightarrow>
                    if now \<ge> last_sniff s1 + t
                    then (case sniff_endpoints w s1 of
                            (Inl e, s2) \<Rightarrow> (Inl e, s2)
                          | (Inr u, s2) \<Rightarrow> pool_get_connection w s2)
                    else pool_get_connection w s1))"

text \<open>\<^verbatim>\<open>Transport.mark_dead\<close>: reading an attribute that was never assigned
  raises \<^verbatim>\<open>AttributeError\<close>.\<close>

definition mark_dead :: "world \<Rightarrow> connection \<Rightarrow> state \<Rightarrow> (exn + unit) \<times> state" where
  "mark_dead w c s =
     (let s1 = pool_mark_dead c s
      in case sniff_on_connection_fail s1 of
           None \<Rightarrow> (Inl (AttributeError ''_sniff_on_connection_fail''), s1)
         | Some flag \<Rightarrow> if flag then sniff_endpoints w s1 else (Inr (), s1))"

section \<open>Request execution with retry\<close>

text \<open>What \<^verbatim>\<open>perform_request\<close> returns: \<^verbatim>\<open>(status, data)\<close>, the data decoded
  when it is not empty; \<open>None\<close> is the function ending without \<^verbatim>\<open>return\<close>.\<close>

datatype payload = Decoded json | Undecoded string

fun attempts ::
  "world \<Rightarrow> request \<Rightarrow> int list \<Rightarrow> state \<Rightarrow> (exn + (int \<times> payload) option) \<times> state" where
  "attempts w rq [] s = (Inr None, s)"
| "attempts w rq (attempt # rest) s =
     (case get_connection w s of
        (Inl e, s1) \<Rightarrow> (Inl e, s1)
      | (Inr c, s1) \<Rightarrow>
          (case conn_perform_request w c rq s1 of
             (Raises (ConnectionError m), s2) \<Rightarrow>
               (case mark_dead w c s2 of
                  (Inl e, s3) \<Rightarrow> (Inl e, s3)
                | (Inr u, s3) \<Rightarrow>
                    if attempt = max_retries s3 then (Inl (ConnectionError m), s3)
                    else attempts w rq rest s3)
           | (Raises e, s2) \<Rightarrow> (Inl e, s2)
           | (Response status data, s2) \<Rightarrow>
               (let s3 = pool_mark_live c s2
                in if data \<noteq> []
                   then (case json_loads w data of
                           Inl e \<Rightarrow> (Inl e, s3)
                         | Inr j \<Rightarrow> (Inr (Some (status, Decoded j)), s3))
                   else (Inr (Some (status, Undecoded data)), s3))))"

text \<open>\<^verbatim>\<open>Transport.perform_request\<close>; \<open>[0..n]\<close> is \<^verbatim>\<open>range(n + 1)\<close>.\<close>

definition perform_request ::
  "world \<Rightarrow> string \<Rightarrow> string \<Rightarrow> json option \<Rightarrow> real option \<Rightarrow> state
     \<Rightarrow> (exn + (int \<times> payload) option) \<times> state" where
  "perform_request w method url body request_timeout s =
     attempts w (Req method url (map_option (json_dumps w) body) request_timeout)
       [0..max_retries s] s"

section \<open>Construction\<close>

text \<open>\<^verbatim>\<open>Transport.__init__(endpoints, sniffer_timeout=None, sniff_timeout=0.1,
  max_retries=3)\<close>. The attributes are assigned in the order of the source;
  until its assignment an attribute holds a placeholder that nothing reads.
  \<^verbatim>\<open>_sniff_on_connection_fail\<close> is assigned nowhere.\<close>

definition init ::
  "world \<Rightarrow> raw list \<Rightarrow> real option \<Rightarrow> real option \<Rightarrow> int \<Rightarrow> exn + state" where
  "init w endpoints_arg sniffer_timeout_arg sniff_timeout_arg max_retries_arg =
     (case convert_endpoints endpoints_arg of
        Inl e \<Rightarrow> Inl e
      | Inr eps \<Rightarrow>
          (case reinitialize_endpoints w
                  \<lparr>endpoints = map REndpoint eps, pool = ConnectionPool [],
                   seed_connections = [], sniffer_timeout = None, sniff_timeout = None,
                   last_sniff = 0, max_retries = 0, sniff_on_connection_fail = None,
                   step = 0, next_id = 0, closed_ids = [], trace = []\<rparr> of
             (Inl e, s1) \<Rightarrow> Inl e
           | (Inr u, s1) \<Rightarrow>
               (case monotonic w
                       (s1\<lparr>seed_connections := connections (pool s1),
                           sniffer_timeout := sniff_timeout_arg,
                           sniff_timeout := sniff_timeout_arg\<rparr>) of
                  (now, s2) \<Rightarrow> Inr (s2\<lparr>last_sniff := now, max_retries := max_retries_arg\<rparr>))))"

section \<open>What the specification says\<close>

text \<open>Following the spec's words: the candidates of a sniff are the current
  pool's connections followed by the seed connections.\<close>

definition candidates :: "state \<Rightarrow> connection list" where
  "candidates s = connections (pool s) @ seed_connections s"


text \<open>The network calls of a trace, in order: which connection, which
  request.\<close>

fun requests_of :: "event list \<Rightarrow> (nat \<times> request) list" where
  "requests_of [] = []"
| "requests_of (Request i rq # evs) = (i, rq) # requests_of evs"
| "requests_of (ev # evs) = requests_of evs"

text \<open>Following the spec's words: an address string that ends in
  \<^verbatim>\<open>/host:port\<close> or \<^verbatim>\<open>/host:port]\<close>, the host over the characters of an IPv4
  or IPv6 literal, the port a run of digits.\<close>

definition addr_suffix_form :: "string \<Rightarrow> bool" where
  "addr_suffix_form s =
     (\<exists>pre h p t. s = pre @ CHR ''/'' # h @ CHR '':'' # p @ t \<and> list_all is_hostchar h \<and>
        p \<noteq> [] \<and> list_all is_digit p \<and> (t = [] \<or> t = '']''))"

text \<open>Following the spec's words: the canonical \<open>Endpoint\<close> of an entry, the
  port 9200 where a mapping names none; an entry that is neither an
  \<open>Endpoint\<close> nor a mapping with a host has none.\<close>

fun canonical :: "raw \<Rightarrow> endpoint option" where
  "canonical (REndpoint e) = Some e"
| "canonical (RDict d) =
     (case map_of d ''host'' of
        None \<Rightarrow> None
      | Some h \<Rightarrow> Some (Endpoint h (case map_of d ''port'' of None \<Rightarrow> PInt 9200 | Some p \<Rightarrow> p)))"
| "canonical (ROther v) = None"

section \<open>Notions used in the proofs\<close>

text \<open>The state in which the candidate loop of a sniff starts: the clock has
  been read and \<^verbatim>\<open>_last_sniff\<close> set to the reading.\<close>

definition loop_state :: "world \<Rightarrow> state \<Rightarrow> state" where
  "loop_state w s = (tick s)\<lparr>last_sniff := clock w (step s)\<rparr>"

text \<open>The state after the connections \<open>cs\<close> have each been sent the request
  \<open>rq\<close>, one step apiece.\<close>

definition after_requests :: "request \<Rightarrow> connection list \<Rightarrow> state \<Rightarrow> state" where
  "after_requests rq cs s =
     s\<lparr>step := step s + length cs, trace := trace s @ map (\<lambda>c. Request (cid c) rq) cs\<rparr>"

text \<open>A connection of the old pool that the rebuild takes over for one of the
  endpoints \<open>es\<close>, by identity.\<close>

definition taken :: "(raw \<times> connection) list \<Rightarrow> raw list \<Rightarrow> connection \<Rightarrow> bool" where
  "taken old es d = (\<exists>e\<in>set es. \<exists>c. map_of old e = Some c \<and> cid d = cid c)"

section \<open>Two concrete worlds\<close>

text \<open>In both the clock shows the step count in seconds, the shuffle keeps the
  order and the pool hands out its first connection. In the first every
  connection refuses; in the second every connection answers, and the
  document names one node, a dedicated master.\<close>

definition refusing_world :: world where
  "refusing_world =
     \<lparr>net = (\<lambda>k c rq. Raises (ConnectionError ''connection refused'')),
      clock = (\<lambda>k. real k),
      shuffle = (\<lambda>k cs. cs),
      select = (\<lambda>k p. case connections p of
                         [] \<Rightarrow> Inl (OtherError ''no connections'')
                       | c # cs \<Rightarrow> Inr c),
      json_loads = (\<lambda>body. Inl (ValueError ''no JSON'')),
      json_dumps = (\<lambda>j. [])\<rparr>"

definition master_only_doc :: json where
  "master_only_doc =
     JObj [(''nodes'', JObj
       [(''M'', JObj [(''http_address'', JStr ''inet[/10.0.0.9:9200]''),
                      (''attributes'', JObj [(''data'', JStr ''false''),
                                             (''client'', JStr ''false''),
                                             (''master'', JStr ''true'')])])])]"

definition master_only_world :: world where
  "master_only_world =
     refusing_world\<lparr>net := (\<lambda>k c rq. Response 200 ''nodes''),
                    json_loads := (\<lambda>body. Inr master_only_doc)\<rparr>"

text \<open>\<^verbatim>\<open>Transport([{'host': 'h'}], sniffer_timeout=a, sniff_timeout=b,
  max_retries=3)\<close> in the first world.\<close>

definition transport_h :: "real option \<Rightarrow> real option \<Rightarrow> exn + state" where
  "transport_h a b = init refusing_world [RDict [(''host'', PStr ''h'')]] a b 3"

text \<open>The transport that construction yields: one connection, which is also
  the seed; \<open>t\<close> is what both timeout attributes hold.\<close>

definition conn_h :: connection where
  "conn_h = Connection 0 (REndpoint (Endpoint (PStr ''h'') (PInt 9200)))"

definition state_h :: "real option \<Rightarrow> state" where
  "state_h t =
     \<lparr>endpoints = [REndpoint (Endpoint (PStr ''h'') (PInt 9200))],
      pool = \<lparr>connections = [conn_h], dead = []\<rparr>,
      seed_connections = [conn_h],
      sniffer_timeout = t, sniff_timeout = t,
      last_sniff = 1, max_retries = 3, sniff_on_connection_fail = None,
      step = 2, next_id = 1, closed_ids = [],
      trace = [NewConnection 0, PoolClose []]\<rparr>"




section \<open>Address parsing\<close>

subsection \<open>A successful match decomposes the string\<close>

lemma try_down_SomeD:
  "try_down f lo hi = Some r \<Longrightarrow> \<exists>k. lo \<le> k \<and> k \<le> hi \<and> f k = Some r"
proof (induction hi)
  case 0
  then show ?case by (auto split: if_splits)
next
  case (Suc hi)
  show ?case
  proof (cases "f (Suc hi)")
    case None
    with Suc.prems have "try_down f lo hi = Some r"
      by (simp split: if_splits)
    from Suc.IH [OF this] show ?thesis
      by (meson le_Suc_eq)
  next
    case (Some r')
    with Suc.prems have "r' = r" "lo \<le> Suc hi"
      by (auto split: if_splits)
    with Some show ?thesis by blast
  qed
qed

lemma take_takeWhile_all:
  "k \<le> length (takeWhile P s) \<Longrightarrow> list_all P (take k s)"
proof (induction s arbitrary: k)
  case Nil
  then show ?case by simp
next
  case (Cons c s)
  show ?case
  proof (cases k)
    case 0
    then show ?thesis by simp
  next
    case (Suc j)
    with Cons.prems have "P c" "j \<le> length (takeWhile P s)"
      by (auto split: if_splits)
    with Cons.IH [of j] Suc show ?thesis by simp
  qed
qed

lemma rx_match_Chars_SomeD:
  assumes "rx_match (Chars cls q g # its) s = Some caps"
  shows "\<exists>k caps'. quant_lo q \<le> k \<and> k \<le> quant_hi q (length (takeWhile cls s)) \<and>
           rx_match its (drop k s) = Some caps' \<and> caps = bind_group g (take k s) caps'"
proof -
  from assms obtain k where k: "quant_lo q \<le> k" "k \<le> quant_hi q (length (takeWhile cls s))"
    and m: "(case rx_match its (drop k s) of None \<Rightarrow> None
            | Some caps \<Rightarrow> Some (bind_group g (take k s) caps)) = Some caps"
    by (auto dest!: try_down_SomeD)
  from m show ?thesis using k by (auto split: option.splits)
qed

lemma rx_match_One_SomeD:
  assumes "rx_match (Chars cls One g # its) s = Some caps"
  shows "\<exists>c r caps'. s = c # r \<and> cls c \<and> rx_match its r = Some caps' \<and> caps = bind_group g [c] caps'"
proof -
  from rx_match_Chars_SomeD [OF assms] obtain k caps' where
    k: "1 \<le> k" "k \<le> min 1 (length (takeWhile cls s))"
    and m: "rx_match its (drop k s) = Some caps'" "caps = bind_group g (take k s) caps'"
    by (auto simp: quant_lo_def quant_hi_def)
  from k have k1: "k = 1" and av: "1 \<le> length (takeWhile cls s)" by auto
  from av obtain c r where s: "s = c # r" by (cases s) auto
  with av have "cls c" by (auto split: if_splits)
  with m s k1 show ?thesis by auto
qed

lemma rx_match_run_SomeD:
  assumes "rx_match (Chars cls q g # its) s = Some caps"
  shows "\<exists>v r caps'. s = v @ r \<and> list_all cls v \<and> quant_lo q \<le> length v \<and>
           rx_match its r = Some caps' \<and> caps = bind_group g v caps'"
proof -
  from rx_match_Chars_SomeD [OF assms] obtain k caps' where
    k: "quant_lo q \<le> k" "k \<le> quant_hi q (length (takeWhile cls s))"
    and m: "rx_match its (drop k s) = Some caps'" "caps = bind_group g (take k s) caps'"
    by blast
  have hi: "quant_hi q (length (takeWhile cls s)) \<le> length (takeWhile cls s)"
    by (cases q) (auto simp: quant_hi_def)
  with k have kl: "k \<le> length (takeWhile cls s)" by simp
  then have all: "list_all cls (take k s)" by (rule take_takeWhile_all)
  have "length (takeWhile cls s) \<le> length s" by (rule length_takeWhile_le)
  with kl have "length (take k s) = k" by simp
  with k m all show ?thesis
    by (intro exI [of _ "take k s"] exI [of _ "drop k s"] exI [of _ caps']) simp
qed

lemma rx_match_Opt_SomeD:
  assumes "rx_match (Chars cls Opt g # its) s = Some caps"
  shows "\<exists>v r caps'. s = v @ r \<and> (v = [] \<or> (\<exists>c. v = [c] \<and> cls c)) \<and>
           rx_match its r = Some caps' \<and> caps = bind_group g v caps'"
proof -
  from rx_match_Chars_SomeD [OF assms] obtain k caps' where
    k: "k \<le> min 1 (length (takeWhile cls s))"
    and m: "rx_match its (drop k s) = Some caps'" "caps = bind_group g (take k s) caps'"
    by (auto simp: quant_lo_def quant_hi_def)
  show ?thesis
  proof (cases "k = 0")
    case True
    with m show ?thesis
      by (intro exI [of _ "[]"] exI [of _ s] exI [of _ caps']) simp
  next
    case False
    with k have k1: "k = 1" and av: "1 \<le> length (takeWhile cls s)" by auto
    from av obtain c r where s: "s = c # r" by (cases s) auto
    with av have "cls c" by (auto split: if_splits)
    with m s k1 show ?thesis
      by (intro exI [of _ "[c]"] exI [of _ r] exI [of _ caps']) simp
  qed
qed

lemma ADDRESS_RE_match_sound:
  assumes "rx_match ADDRESS_RE u = Some caps"
  shows "\<exists>h p t. u = CHR ''/'' # h @ CHR '':'' # p @ t \<and> list_all is_hostchar h \<and>
           p \<noteq> [] \<and> list_all is_digit p \<and>
           (t = [] \<or> t = '']'' \<or> t = [CHR 0x0A] \<or> t = [CHR '']'', CHR 0x0A]) \<and>
           caps = [(''host'', h), (''port'', p)]"
proof -
  from rx_match_One_SomeD [OF assms [unfolded ADDRESS_RE_def]] obtain c1 r1 caps1 where
    1: "u = c1 # r1" "c1 = CHR ''/''" "caps = caps1"
    and m1: "rx_match [Chars is_hostchar Star (Some ''host''),
      Chars (\<lambda>c. c = CHR '':'') One None,
      Chars is_digit Plus (Some ''port''),
      Chars (\<lambda>c. c = CHR '']'') Opt None,
      EndAnchor] r1 = Some caps1"
    by (auto simp: bind_group_def)
  from rx_match_run_SomeD [OF m1] obtain h r2 caps2 where
    2: "r1 = h @ r2" "list_all is_hostchar h" "caps1 = (''host'', h) # caps2"
    and m2: "rx_match [Chars (\<lambda>c. c = CHR '':'') One None,
      Chars is_digit Plus (Some ''port''),
      Chars (\<lambda>c. c = CHR '']'') Opt None,
      EndAnchor] r2 = Some caps2"
    by (auto simp: bind_group_def)
  from rx_match_One_SomeD [OF m2] obtain c3 r3 caps3 where
    3: "r2 = c3 # r3" "c3 = CHR '':''" "caps2 = caps3"
    and m3: "rx_match [Chars is_digit Plus (Some ''port''),
      Chars (\<lambda>c. c = CHR '']'') Opt None,
      EndAnchor] r3 = Some caps3"
    by (auto simp: bind_group_def)
  from rx_match_run_SomeD [OF m3] obtain p r4 caps4 where
    4: "r3 = p @ r4" "list_all is_digit p" "1 \<le> length p" "caps3 = (''port'', p) # caps4"
    and m4: "rx_match [Chars (\<lambda>c. c = CHR '']'') Opt None, EndAnchor] r4 = Some caps4"
    by (auto simp: bind_group_def quant_lo_def)
  from rx_match_Opt_SomeD [OF m4] obtain v r5 caps5 where
    5: "r4 = v @ r5" "v = [] \<or> v = '']''" "caps4 = caps5"
    and m5: "rx_match [EndAnchor] r5 = Some caps5"
    by (auto simp: bind_group_def)
  from m5 have 6: "r5 = [] \<or> r5 = [CHR 0x0A]" "caps5 = []"
    by (auto simp: at_end_def split: if_splits)
  from 4 have "p \<noteq> []" by auto
  with 1 2 3 4 5 6 show ?thesis
    by (intro exI [of _ h] exI [of _ p] exI [of _ "v @ r5"]) auto
qed

lemma rx_search_SomeD:
  "rx_search p s = Some caps \<Longrightarrow> \<exists>pre u. s = pre @ u \<and> rx_match p u = Some caps"
proof (induction s)
  case Nil
  then show ?case by simp
next
  case (Cons c s)
  show ?case
  proof (cases "rx_match p (c # s)")
    case None
    with Cons.prems have "rx_search p s = Some caps" by simp
    from Cons.IH [OF this] obtain pre u where "s = pre @ u" "rx_match p u = Some caps" by blast
    then show ?thesis by (intro exI [of _ "c # pre"] exI [of _ u]) simp
  next
    case (Some r)
    with Cons.prems have "rx_match p (c # s) = Some caps" by simp
    then show ?thesis by (intro exI [of _ "[]"] exI [of _ "c # s"]) simp
  qed
qed

lemma addr_suffix_form_slash: "addr_suffix_form s \<Longrightarrow> CHR ''/'' \<in> set s"
  by (auto simp: addr_suffix_form_def)

lemma addr_suffix_form_last:
  "addr_suffix_form s \<Longrightarrow> is_digit (last s) \<or> last s = CHR '']''"
  by (auto simp: addr_suffix_form_def list_all_iff)

lemma rx_search_ADDRESS_RE_sound:
  assumes "rx_search ADDRESS_RE a = Some dct"
  shows "\<exists>pre h p t. a = pre @ CHR ''/'' # h @ CHR '':'' # p @ t \<and> list_all is_hostchar h \<and>
           p \<noteq> [] \<and> list_all is_digit p \<and>
           (t = [] \<or> t = '']'' \<or> t = [CHR 0x0A] \<or> t = [CHR '']'', CHR 0x0A]) \<and>
           dct = [(''host'', h), (''port'', p)]"
proof -
  from rx_search_SomeD [OF assms] obtain pre u where
    a: "a = pre @ u" and m: "rx_match ADDRESS_RE u = Some dct" by blast
  from ADDRESS_RE_match_sound [OF m] a show ?thesis by blast
qed

lemma rx_search_ADDRESS_RE_form:
  assumes "rx_search ADDRESS_RE a = Some dct"
  shows "addr_suffix_form a \<or> (\<exists>b. a = b @ [CHR 0x0A] \<and> addr_suffix_form b)"
proof -
  from rx_search_ADDRESS_RE_sound [OF assms] obtain pre h p t where
    a: "a = pre @ CHR ''/'' # h @ CHR '':'' # p @ t" and h: "list_all is_hostchar h"
    and p: "p \<noteq> []" "list_all is_digit p"
    and t: "t = [] \<or> t = '']'' \<or> t = [CHR 0x0A] \<or> t = [CHR '']'', CHR 0x0A]"
    by blast
  let ?b = "\<lambda>t'. pre @ CHR ''/'' # h @ CHR '':'' # p @ t'"
  have f: "addr_suffix_form (?b [])" "addr_suffix_form (?b '']'')"
    unfolding addr_suffix_form_def using h p by blast+
  from t consider "t = []" | "t = '']''" | "t = [CHR 0x0A]" | "t = [CHR '']'', CHR 0x0A]"
    by blast
  then show ?thesis
  proof cases
    case 1
    with a f show ?thesis by simp
  next
    case 2
    with a f show ?thesis by simp
  next
    case 3
    with a have "a = ?b [] @ [CHR 0x0A]" by simp
    with f show ?thesis by blast
  next
    case 4
    with a have "a = ?b '']'' @ [CHR 0x0A]" by simp
    with f show ?thesis by blast
  qed
qed

lemmas rx_eval = ADDRESS_RE_def quant_lo_def quant_hi_def at_end_def bind_group_def
  is_digit_def is_hostchar_def

lemmas node_eval = rx_eval dict_get_def py_int_def int_of_digits_def digit_val_def
  dedicated_master_def

text \<open>
  C9 (as amended). The string \<^verbatim>\<open>foo/127.0.0.1:9300]\<close> parses to host
  \<^verbatim>\<open>127.0.0.1\<close> and port \<^verbatim>\<open>9300\<close>, and a node whose address string has no
  \<^verbatim>\<open>/host:port\<close> or \<^verbatim>\<open>/host:port]\<close> suffix, also after one final newline is
  dropped, is skipped without error: it adds no endpoint.
\<close>

theorem address_parsing:
  "rx_search ADDRESS_RE ''foo/127.0.0.1:9300]'' =
     Some [(''host'', ''127.0.0.1''), (''port'', ''9300'')] \<and>
   sniff_node (JObj [(''http_address'', JStr ''foo/127.0.0.1:9300]'')]) =
     Inr (Some (Endpoint (PStr ''127.0.0.1'') (PInt 9300))) \<and>
   (\<forall>n a. dict_get n ''http_address'' (JStr []) = JStr a \<and>
          \<not> addr_suffix_form a \<and> \<not> (\<exists>b. a = b @ [CHR 0x0A] \<and> addr_suffix_form b)
            \<longrightarrow> sniff_node (JObj n) = Inr None)"
proof (intro conjI allI impI)
  show "rx_search ADDRESS_RE ''foo/127.0.0.1:9300]'' =
     Some [(''host'', ''127.0.0.1''), (''port'', ''9300'')]"
    by (simp add: rx_eval)
  show "sniff_node (JObj [(''http_address'', JStr ''foo/127.0.0.1:9300]'')]) =
     Inr (Some (Endpoint (PStr ''127.0.0.1'') (PInt 9300)))"
    by (simp add: node_eval)
next
  fix n a
  assume h: "dict_get n ''http_address'' (JStr []) = JStr a \<and>
          \<not> addr_suffix_form a \<and> \<not> (\<exists>b. a = b @ [CHR 0x0A] \<and> addr_suffix_form b)"
  then have "rx_search ADDRESS_RE a = None"
    using rx_search_ADDRESS_RE_form [of a] by (cases "rx_search ADDRESS_RE a") auto
  with h show "sniff_node (JObj n) = Inr None" by simp
qed

text \<open>The theorem at a node whose address is \<^verbatim>\<open>localhost\<close>.\<close>

theorem address_parsing_witness:
  "sniff_node (JObj [(''http_address'', JStr ''localhost'')]) = Inr None"
proof -
  have 1: "\<not> addr_suffix_form ''localhost''"
    using addr_suffix_form_slash [of "''localhost''"] by auto
  have 2: "\<not> (\<exists>b. ''localhost'' = b @ [CHR 0x0A] \<and> addr_suffix_form b)"
  proof
    assume "\<exists>b. ''localhost'' = b @ [CHR 0x0A] \<and> addr_suffix_form b"
    then obtain b where "''localhost'' = b @ [CHR 0x0A]" by blast
    then have "last ''localhost'' = CHR 0x0A" by (metis last_snoc)
    then show False by simp
  qed
  have 3: "dict_get [(''http_address'', JStr ''localhost'')] ''http_address'' (JStr []) = JStr ''localhost''"
    by (simp add: dict_get_def)
  from address_parsing 1 2 3 show ?thesis by blast
qed

text \<open>C9 as stated fails: \<^verbatim>\<open>$\<close> also holds before a final newline, so the
  address \<^verbatim>\<open>/1:2\<close> followed by a newline has neither suffix and still yields an
  endpoint.\<close>

theorem address_parsing_counterexample:
  "\<not> addr_suffix_form [CHR ''/'', CHR ''1'', CHR '':'', CHR ''2'', CHR 0x0A] \<and>
   sniff_node (JObj [(''http_address'', JStr [CHR ''/'', CHR ''1'', CHR '':'', CHR ''2'', CHR 0x0A])]) =
     Inr (Some (Endpoint (PStr ''1'') (PInt 2)))"
proof
  show "\<not> addr_suffix_form [CHR ''/'', CHR ''1'', CHR '':'', CHR ''2'', CHR 0x0A]"
    using addr_suffix_form_last [of "[CHR ''/'', CHR ''1'', CHR '':'', CHR ''2'', CHR 0x0A]"]
    by (auto simp: is_digit_def)
  show "sniff_node (JObj [(''http_address'', JStr [CHR ''/'', CHR ''1'', CHR '':'', CHR ''2'', CHR 0x0A])]) =
     Inr (Some (Endpoint (PStr ''1'') (PInt 2)))"
    by (simp add: node_eval)
qed


text \<open>
  C10. Whenever the address of a node matches \<open>ADDRESS_RE\<close>, the match's
  \<^verbatim>\<open>groupdict()\<close> holds the key \<^verbatim>\<open>port\<close>, its value is a non-empty run of
  digits that \<^verbatim>\<open>int\<close> reads without error, and the endpoint the node yields
  carries that integer: the branch that would assign 9200 is never taken.
\<close>

theorem sniffed_port_is_parsed:
  "rx_search ADDRESS_RE a = Some dct \<longrightarrow>
     (\<exists>h p. map_of dct ''host'' = Some h \<and> map_of dct ''port'' = Some p \<and>
        py_int p = Inr (int_of_digits p) \<and>
        (\<forall>n ep. dict_get n ''http_address'' (JStr []) = JStr a \<and>
                 sniff_node (JObj n) = Inr (Some ep)
                   \<longrightarrow> ep = Endpoint (PStr h) (PInt (int_of_digits p))))"
proof
  assume m: "rx_search ADDRESS_RE a = Some dct"
  from rx_search_ADDRESS_RE_sound [OF m] obtain h p where
    p: "p \<noteq> []" "list_all is_digit p" and dct: "dct = [(''host'', h), (''port'', p)]"
    by blast
  have host: "map_of dct ''host'' = Some h" and port: "map_of dct ''port'' = Some p"
    using dct by simp_all
  have int: "py_int p = Inr (int_of_digits p)"
    using p by (simp add: py_int_def)
  have "ep = Endpoint (PStr h) (PInt (int_of_digits p))"
    if "dict_get n ''http_address'' (JStr []) = JStr a"
      and "sniff_node (JObj n) = Inr (Some ep)" for n ep
    using that m host port int
    by (auto split: json.splits if_splits)
  with host port int show "\<exists>h p. map_of dct ''host'' = Some h \<and> map_of dct ''port'' = Some p \<and>
        py_int p = Inr (int_of_digits p) \<and>
        (\<forall>n ep. dict_get n ''http_address'' (JStr []) = JStr a \<and>
                 sniff_node (JObj n) = Inr (Some ep)
                   \<longrightarrow> ep = Endpoint (PStr h) (PInt (int_of_digits p)))"
    by blast
qed

text \<open>The theorem at the address \<^verbatim>\<open>inet[/10.0.0.1:9201]\<close>.\<close>

theorem sniffed_port_is_parsed_witness:
  "map_of [(''host'', ''10.0.0.1''), (''port'', ''9201'')] ''port'' = Some ''9201'' \<and>
   sniff_node (JObj [(''http_address'', JStr ''inet[/10.0.0.1:9201]'')]) =
     Inr (Some (Endpoint (PStr ''10.0.0.1'') (PInt 9201)))"
proof -
  have m: "rx_search ADDRESS_RE ''inet[/10.0.0.1:9201]'' =
             Some [(''host'', ''10.0.0.1''), (''port'', ''9201'')]"
    by (simp add: rx_eval)
  have g: "dict_get [(''http_address'', JStr ''inet[/10.0.0.1:9201]'')] ''http_address'' (JStr [])
             = JStr ''inet[/10.0.0.1:9201]''"
    by (simp add: dict_get_def)
  have k: "int_of_digits ''9201'' = 9201"
    by (simp add: int_of_digits_def digit_val_def)
  obtain ep where ep: "sniff_node (JObj [(''http_address'', JStr ''inet[/10.0.0.1:9201]'')]) = Inr (Some ep)"
    by (simp add: node_eval)
  from sniffed_port_is_parsed [of "''inet[/10.0.0.1:9201]''" "[(''host'', ''10.0.0.1''), (''port'', ''9201'')]"] m
  obtain h p where hp: "map_of [(''host'', ''10.0.0.1''), (''port'', ''9201'')] ''host'' = Some h"
      "map_of [(''host'', ''10.0.0.1''), (''port'', ''9201'')] ''port'' = Some p"
    and all: "\<forall>n ep. dict_get n ''http_address'' (JStr []) = JStr ''inet[/10.0.0.1:9201]'' \<and>
                 sniff_node (JObj n) = Inr (Some ep)
                   \<longrightarrow> ep = Endpoint (PStr h) (PInt (int_of_digits p))"
    by blast
  from hp have h: "h = ''10.0.0.1''" and p: "p = ''9201''" by simp_all
  from all g ep have "ep = Endpoint (PStr h) (PInt (int_of_digits p))" by blast
  with h p k ep show ?thesis by simp
qed

section \<open>The filter on node attributes\<close>




section \<open>Runs of the transport\<close>

subsection \<open>Network calls in a trace, and the candidate loop\<close>

lemma requests_of_append: "requests_of (xs @ ys) = requests_of xs @ requests_of ys"
  by (induction xs rule: requests_of.induct) simp_all

lemma sniff_request_tick_emit [simp]:
  "sniff_request (tick (emit ev s)) = sniff_request s"
  by (simp add: sniff_request_def tick_def emit_def)

lemma after_requests_Nil [simp]: "after_requests rq [] s = s"
  by (simp add: after_requests_def)




lemma sniff_request_after_requests [simp]:
  "sniff_request (after_requests rq cs s) = sniff_request s"
  by (simp add: sniff_request_def after_requests_def)



subsection \<open>Rebuilding the pool\<close>


lemma index_connections_hashable:
  "list_all (\<lambda>c. hashable (endpoint c)) cs \<Longrightarrow> \<exists>old. index_connections acc cs = Inr old"
  by (induction cs arbitrary: acc) auto



lemma taken_Nil [simp]: "taken old [] d = False"
  by (simp add: taken_def)


lemma reinit_loop_frame:
  "reinit_loop old es conns s = (r, s') \<Longrightarrow>
     s' = s\<lparr>pool := pool s', next_id := next_id s', trace := trace s'\<rparr> \<and>
     requests_of (trace s') = requests_of (trace s) \<and> next_id s \<le> next_id s'"
proof (induction es arbitrary: conns s)
  case Nil
  then show ?case by auto
next
  case (Cons e es)
  show ?case
  proof (cases "hashable e")
    case False
    with Cons.prems show ?thesis by auto
  next
    case True
    show ?thesis
    proof (cases "map_of old e")
      case None
      with True Cons.prems have
        "reinit_loop old es (conns @ [fst (new_connection e s)]) (snd (new_connection e s)) = (r, s')"
        by (simp split: prod.splits)
      from Cons.IH [OF this] show ?thesis
        by (auto simp: new_connection_def emit_def requests_of_append)
    next
      case (Some c)
      with True Cons.prems have "reinit_loop old es (conns @ [c]) (pool_detach c s) = (r, s')"
        by simp
      from Cons.IH [OF this] show ?thesis
        by (auto simp: pool_detach_def emit_def requests_of_append)
    qed
  qed
qed

lemma reinit_loop_hashable:
  "list_all hashable es \<Longrightarrow> \<exists>conns' s'. reinit_loop old es conns s = (Inr conns', s')"
proof (induction es arbitrary: conns s)
  case Nil
  then show ?case by simp
next
  case (Cons e es)
  then show ?case by (cases "map_of old e") (auto split: prod.splits)
qed





subsection \<open>Evaluating a run\<close>

lemmas run_eval = init_def convert_endpoints_def reinitialize_endpoints_def ConnectionPool_def
  pool_close_def pool_detach_def pool_mark_dead_def pool_mark_live_def pool_get_connection_def
  new_connection_def conn_perform_request_def monotonic_def tick_def emit_def
  set_endpoints_def get_endpoints_def get_connection_def mark_dead_def perform_request_def
  sniff_endpoints_def sniff_try_def sniff_request_def parse_node_info_def

subsection \<open>What a sniff leaves unchanged\<close>


lemma sniff_loop_trace:
  "sniff_loop w cs s = (r, s') \<Longrightarrow> \<exists>evs. trace s' = trace s @ evs"
proof (induction cs arbitrary: s)
  case Nil
  then show ?case by auto
next
  case (Cons c cs)
  let ?s1 = "tick (emit (Request (cid c) (sniff_request s)) s)"
  have t1: "trace ?s1 = trace s @ [Request (cid c) (sniff_request s)]"
    by (simp add: tick_def emit_def)
  from Cons.prems consider "s' = ?s1" | "sniff_loop w cs ?s1 = (r, s')"
    by (auto simp: conn_perform_request_def split: outcome.splits sum.splits if_splits)
  then show ?case
  proof cases
    case 1
    with t1 show ?thesis by simp
  next
    case 2
    from Cons.IH [OF 2] t1 show ?thesis by auto
  qed
qed

lemma reinit_loop_trace:
  "reinit_loop old es conns s = (r, s') \<Longrightarrow> \<exists>evs. trace s' = trace s @ evs"
proof (induction es arbitrary: conns s)
  case Nil
  then show ?case by auto
next
  case (Cons e es)
  show ?case
  proof (cases "hashable e")
    case False
    with Cons.prems show ?thesis by auto
  next
    case True
    show ?thesis
    proof (cases "map_of old e")
      case None
      with True Cons.prems have
        "reinit_loop old es (conns @ [fst (new_connection e s)]) (snd (new_connection e s)) = (r, s')"
        by (simp split: prod.splits)
      from Cons.IH [OF this] show ?thesis
        by (auto simp: new_connection_def emit_def)
    next
      case (Some c)
      with True Cons.prems have "reinit_loop old es (conns @ [c]) (pool_detach c s) = (r, s')"
        by simp
      from Cons.IH [OF this] show ?thesis
        by (auto simp: pool_detach_def emit_def)
    qed
  qed
qed

lemma reinitialize_endpoints_trace:
  "\<exists>evs. trace (snd (reinitialize_endpoints w s)) = trace s @ evs \<and>
         requests_of evs = []"
proof (cases "index_connections [] (connections (pool s))")
  case (Inl x)
  then show ?thesis by (simp add: reinitialize_endpoints_def)
next
  case (Inr old)
  obtain r s1 where loop: "reinit_loop old (endpoints s) [] s = (r, s1)" by force
  from reinit_loop_trace [OF loop] obtain evs where evs: "trace s1 = trace s @ evs" by blast
  from reinit_loop_frame [OF loop] have "requests_of (trace s1) = requests_of (trace s)" by simp
  with evs have none: "requests_of evs = []" by (simp add: requests_of_append)
  show ?thesis
  proof (cases r)
    case (Inl x)
    with Inr loop evs none show ?thesis by (simp add: reinitialize_endpoints_def)
  next
    case (Inr conns)
    with \<open>index_connections [] (connections (pool s)) = Inr old\<close> loop evs none show ?thesis
      by (simp add: reinitialize_endpoints_def Let_def tick_def pool_close_def emit_def
          requests_of_append)
  qed
qed


lemma reinitialize_endpoints_hashable:
  assumes "list_all (\<lambda>c. hashable (endpoint c)) (connections (pool s))"
    and "list_all hashable (endpoints s)"
  shows "\<exists>s'. reinitialize_endpoints w s = (Inr (), s')"
proof -
  from index_connections_hashable [OF assms(1)] obtain old where
    old: "index_connections [] (connections (pool s)) = Inr old" by blast
  from reinit_loop_hashable [OF assms(2)] obtain conns s1 where
    "reinit_loop old (endpoints s) [] s = (Inr conns, s1)" by blast
  with old show ?thesis by (simp add: reinitialize_endpoints_def Let_def)
qed

lemma sniff_try_loop:
  "sniff_try w s =
     (case sniff_loop w (candidates s) (loop_state w s) of
        (Inl e, s2) \<Rightarrow> (Inl e, s2\<lparr>last_sniff := last_sniff s\<rparr>)
      | (Inr doc, s2) \<Rightarrow> (Inr doc, s2))"
  by (simp add: sniff_try_def monotonic_def candidates_def loop_state_def tick_def Let_def)



lemma sniff_try_trace:
  "\<exists>evs. trace (snd (sniff_try w s)) = trace s @ evs"
proof -
  obtain r s2 where loop: "sniff_loop w (candidates s) (loop_state w s) = (r, s2)" by force
  from sniff_loop_trace [OF loop] obtain evs where "trace s2 = trace (loop_state w s) @ evs"
    by blast
  then have "trace s2 = trace s @ evs" by (simp add: loop_state_def tick_def)
  with loop show ?thesis by (cases r) (auto simp: sniff_try_loop)
qed

lemma sniff_endpoints_trace:
  "\<exists>evs. trace (snd (sniff_endpoints w s)) = trace s @ SniffCall # evs"
proof -
  let ?s0 = "emit SniffCall s"
  obtain r s2 where tr: "sniff_try w ?s0 = (r, s2)" by force
  from sniff_try_trace [of w ?s0] tr obtain evs where
    evs: "trace s2 = trace s @ SniffCall # evs" by (auto simp: emit_def)
  show ?thesis
  proof (cases r)
    case (Inl e)
    with tr evs show ?thesis by (simp add: sniff_endpoints_def)
  next
    case (Inr doc)
    show ?thesis
    proof (cases "parse_node_info doc")
      case (Inl e)
      with Inr tr evs show ?thesis by (simp add: sniff_endpoints_def)
    next
      case eps: (Inr eps)
      show ?thesis
      proof (cases "eps = []")
        case True
        with eps Inr tr evs show ?thesis by (simp add: sniff_endpoints_def)
      next
        case False
        let ?s3 = "s2\<lparr>endpoints := map REndpoint eps\<rparr>"
        from reinitialize_endpoints_trace [of w ?s3] obtain evs' where
          "trace (snd (reinitialize_endpoints w ?s3)) = trace ?s3 @ evs'" by blast
        with evs have "trace (snd (reinitialize_endpoints w ?s3)) = trace s @ SniffCall # (evs @ evs')"
          by simp
        with False eps Inr tr show ?thesis
          by (simp add: sniff_endpoints_def set_endpoints_def del: append_assoc)
      qed
    qed
  qed
qed

text \<open>
  C5. \<^verbatim>\<open>mark_dead\<close> first lets the pool mark the connection dead; whatever else
  it does comes after that in the trace. A sniff follows exactly when
  \<^verbatim>\<open>_sniff_on_connection_fail\<close> is true, and it starts from the state in which the
  pool has already marked the connection. When the attribute is false nothing
  follows; when it was never assigned, nothing follows either and the read
  raises \<^verbatim>\<open>AttributeError\<close>.
\<close>

theorem mark_dead_then_sniff:
  "\<exists>evs. trace (snd (mark_dead w c s)) = trace s @ PoolMarkDead (cid c) # evs \<and>
     (SniffCall \<in> set evs \<longleftrightarrow> sniff_on_connection_fail s = Some True) \<and>
     (sniff_on_connection_fail s = Some True \<longrightarrow>
        (\<exists>rest. evs = SniffCall # rest) \<and>
        mark_dead w c s = sniff_endpoints w (pool_mark_dead c s)) \<and>
     (sniff_on_connection_fail s = Some False \<longrightarrow>
        evs = [] \<and> mark_dead w c s = (Inr (), pool_mark_dead c s)) \<and>
     (sniff_on_connection_fail s = None \<longrightarrow>
        evs = [] \<and>
        mark_dead w c s = (Inl (AttributeError ''_sniff_on_connection_fail''), pool_mark_dead c s))"
proof -
  let ?s1 = "pool_mark_dead c s"
  have t1: "trace ?s1 = trace s @ [PoolMarkDead (cid c)]"
    and f1: "sniff_on_connection_fail ?s1 = sniff_on_connection_fail s"
    by (simp_all add: pool_mark_dead_def emit_def)
  consider "sniff_on_connection_fail s = None" | "sniff_on_connection_fail s = Some False"
    | "sniff_on_connection_fail s = Some True"
    by (cases "sniff_on_connection_fail s") auto
  then show ?thesis
  proof cases
    case 1
    with f1 t1 have "mark_dead w c s = (Inl (AttributeError ''_sniff_on_connection_fail''), ?s1)"
      by (simp add: mark_dead_def Let_def)
    with 1 t1 show ?thesis by (intro exI [of _ "[]"]) simp
  next
    case 2
    with f1 have "mark_dead w c s = (Inr (), ?s1)"
      by (simp add: mark_dead_def Let_def)
    with 2 t1 show ?thesis by (intro exI [of _ "[]"]) simp
  next
    case 3
    with f1 have md: "mark_dead w c s = sniff_endpoints w ?s1"
      by (simp add: mark_dead_def Let_def)
    from sniff_endpoints_trace [of w ?s1] obtain rest where
      "trace (snd (sniff_endpoints w ?s1)) = trace ?s1 @ SniffCall # rest" by blast
    with t1 md have "trace (snd (mark_dead w c s)) = trace s @ PoolMarkDead (cid c) # SniffCall # rest"
      by simp
    with 3 md show ?thesis by (intro exI [of _ "SniffCall # rest"]) simp
  qed
qed




lemma loop_state_simps [simp]:
  "step (loop_state w s) = Suc (step s)"
  "trace (loop_state w s) = trace s"
  "sniff_request (loop_state w s) = sniff_request s"
  by (simp_all add: loop_state_def tick_def sniff_request_def)

lemma emit_simps [simp]:
  "step (emit ev s) = step s"
  "trace (emit ev s) = trace s @ [ev]"
  "candidates (emit ev s) = candidates s"
  "sniff_request (emit ev s) = sniff_request s"
  "last_sniff (emit ev s) = last_sniff s"
  by (simp_all add: emit_def candidates_def sniff_request_def)

lemma candidates_loop_state [simp]: "candidates (loop_state w s) = candidates s"
  by (simp add: loop_state_def tick_def candidates_def)

lemma requests_of_map_Request [simp]:
  "requests_of (map (\<lambda>c. Request (cid c) rq) cs) = map (\<lambda>c. (cid c, rq)) cs"
  by (induction cs) simp_all

lemma after_requests_trace [simp]:
  "trace (after_requests rq cs s) = trace s @ map (\<lambda>c. Request (cid c) rq) cs"
  by (simp add: after_requests_def)



lemma transport_h_eq: "transport_h a b = Inr (state_h b)"
  by (simp add: transport_h_def state_h_def conn_h_def run_eval refusing_world_def)


lemmas world_eval = refusing_world_def master_only_world_def master_only_doc_def
  state_h_def conn_h_def



text \<open>The theorem at the transport for \<^verbatim>\<open>h\<close>, once with the attribute set to
  true and once as the constructor leaves it.\<close>

theorem mark_dead_then_sniff_witness:
  "(\<exists>rest. trace (snd (mark_dead refusing_world conn_h
              ((state_h None)\<lparr>sniff_on_connection_fail := Some True\<rparr>))) =
            trace (state_h None) @ PoolMarkDead 0 # SniffCall # rest) \<and>
   trace (snd (mark_dead refusing_world conn_h (state_h None))) =
     trace (state_h None) @ [PoolMarkDead 0]"
proof -
  let ?s = "(state_h None)\<lparr>sniff_on_connection_fail := Some True\<rparr>"
  from mark_dead_then_sniff [of refusing_world conn_h ?s]
  have 1: "\<exists>rest. trace (snd (mark_dead refusing_world conn_h ?s)) =
            trace (state_h None) @ PoolMarkDead 0 # SniffCall # rest"
    by (auto simp: conn_h_def)
  have none: "sniff_on_connection_fail (state_h None) = None" by (simp add: state_h_def)
  from mark_dead_then_sniff [of refusing_world conn_h "state_h None"] none
  have 2: "trace (snd (mark_dead refusing_world conn_h (state_h None))) =
     trace (state_h None) @ [PoolMarkDead 0]"
    by (auto simp: conn_h_def)
  from 1 2 show ?thesis by blast
qed



section \<open>Where the code departs from the claims\<close>

lemma init_ignores_sniffer_timeout:
  "init w es a b m = init w es a' b m"
  by (simp add: init_def)

text \<open>
  C3 (the code at the failing input). The constructor stores \<^verbatim>\<open>sniff_timeout\<close>
  in \<^verbatim>\<open>_sniffer_timeout\<close>, whatever \<^verbatim>\<open>sniffer_timeout\<close> is: with the interval
  unset, or set to 60 seconds, and the sniff request timeout at its default,
  the transport is the same, and \<^verbatim>\<open>get_connection\<close> one second after the
  construction sniffs.
\<close>

theorem sniff_interval_is_sniff_timeout:
  "transport_h None (Some (1 / 10)) = Inr (state_h (Some (1 / 10))) \<and>
   transport_h (Some 60) (Some (1 / 10)) = Inr (state_h (Some (1 / 10))) \<and>
   sniffer_timeout (state_h (Some (1 / 10))) = Some (1 / 10) \<and>
   clock refusing_world (step (state_h (Some (1 / 10)))) <
     last_sniff (state_h (Some (1 / 10))) + 60 \<and>
   SniffCall \<in> set (trace (snd (get_connection refusing_world (state_h (Some (1 / 10))))))"
  by (simp add: transport_h_eq) (simp add: run_eval world_eval)

text \<open>
  C2 (the code at the failing input). On a transport as the constructor
  builds it, with \<^verbatim>\<open>max_retries = 3\<close> and every connection refusing,
  \<^verbatim>\<open>perform_request\<close> makes one attempt, marks its connection dead and fails with
  the \<^verbatim>\<open>AttributeError\<close> of \<^verbatim>\<open>mark_dead\<close>.
\<close>

theorem first_failure_raises_attribute_error:
  "transport_h None None = Inr (state_h None) \<and>
   max_retries (state_h None) = 3 \<and>
   fst (perform_request refusing_world ''GET'' ''/'' None None (state_h None)) =
     Inl (AttributeError ''_sniff_on_connection_fail'') \<and>
   trace (snd (perform_request refusing_world ''GET'' ''/'' None None (state_h None))) =
     trace (state_h None) @
     [PoolGet, Request 0 (Req ''GET'' ''/'' None None), PoolMarkDead 0]"
  by (simp add: transport_h_eq) (simp add: run_eval world_eval upto.simps)

text \<open>
  C4 (the code at the failing input). The setter stores the list it is given
  as it is: assigning \<^verbatim>\<open>[{'host': 'g'}]\<close>, which the constructor would convert to
  \<^verbatim>\<open>[Endpoint('g', 9200)]\<close>, leaves the dictionary in \<^verbatim>\<open>_endpoints\<close>, and the
  rebuild of the pool then raises \<^verbatim>\<open>TypeError\<close>.
\<close>

theorem setter_stores_raw_entries:
  "convert_endpoints [RDict [(''host'', PStr ''g'')]] = Inr [Endpoint (PStr ''g'') (PInt 9200)] \<and>
   fst (set_endpoints refusing_world [RDict [(''host'', PStr ''g'')]] (state_h None)) =
     Inl (TypeError ''unhashable type'') \<and>
   get_endpoints (snd (set_endpoints refusing_world [RDict [(''host'', PStr ''g'')]] (state_h None))) =
     [RDict [(''host'', PStr ''g'')]]"
  by (simp add: run_eval world_eval)

subsection \<open>What the constructor does with an endpoint list\<close>

lemma convert_loop_canonical:
  "list_all (\<lambda>e. canonical e \<noteq> None) es \<Longrightarrow>
     convert_loop ret es = Inr (ret @ map (the \<circ> canonical) es)"
proof (induction es arbitrary: ret)
  case Nil
  then show ?case by simp
next
  case (Cons e es)
  then show ?case by (cases e) (auto split: option.splits)
qed

lemma convert_endpoints_canonical:
  "list_all (\<lambda>e. canonical e \<noteq> None) es \<Longrightarrow>
     convert_endpoints es = Inr (map (the \<circ> canonical) es)"
  by (simp add: convert_endpoints_def convert_loop_canonical)

lemma convert_loop_rejects:
  "\<not> list_all (\<lambda>e. canonical e \<noteq> None) es \<Longrightarrow> \<exists>x. convert_loop ret es = Inl x"
proof (induction es arbitrary: ret)
  case Nil
  then show ?case by simp
next
  case (Cons e es)
  then show ?case by (cases e) (auto split: option.splits)
qed

lemma convert_loop_other:
  "list_all (\<lambda>e. canonical e \<noteq> None) pre \<Longrightarrow>
     convert_loop ret (pre @ ROther v # es) = Inl (RuntimeError ''Bad endpoint'')"
proof (induction pre arbitrary: ret)
  case Nil
  then show ?case by simp
next
  case (Cons e pre)
  then show ?case by (cases e) (auto split: option.splits)
qed

lemma reinitialize_endpoints_endpoints:
  "endpoints (snd (reinitialize_endpoints w s)) = endpoints s"
proof (cases "index_connections [] (connections (pool s))")
  case (Inl x)
  then show ?thesis by (simp add: reinitialize_endpoints_def)
next
  case (Inr old)
  obtain r s1 where loop: "reinit_loop old (endpoints s) [] s = (r, s1)" by force
  from reinit_loop_frame [OF loop] have "s1 = s\<lparr>pool := pool s1, next_id := next_id s1, trace := trace s1\<rparr>"
    by simp
  then have e: "endpoints s1 = endpoints s"
    by (metis (no_types, lifting) state.select_convs(1) state.surjective state.update_convs)
  show ?thesis
    using Inr loop e
    by (cases r) (simp_all add: reinitialize_endpoints_def Let_def tick_def pool_close_def emit_def)
qed

lemma init_endpoints:
  assumes "init w es a b m = Inr s"
  shows "\<exists>eps. convert_endpoints es = Inr eps \<and> get_endpoints s = map REndpoint eps"
proof -
  from assms obtain eps where eps: "convert_endpoints es = Inr eps"
    by (auto simp: init_def split: sum.splits)
  let ?s0 = "\<lparr>endpoints = map REndpoint eps, pool = ConnectionPool [],
                   seed_connections = [], sniffer_timeout = None, sniff_timeout = None,
                   last_sniff = 0, max_retries = 0, sniff_on_connection_fail = None,
                   step = 0, next_id = 0, closed_ids = [], trace = []\<rparr>"
  from reinitialize_endpoints_endpoints [of w ?s0]
  have e: "endpoints (snd (reinitialize_endpoints w ?s0)) = map REndpoint eps" by simp
  from assms eps e have "endpoints s = map REndpoint eps"
    by (auto simp: init_def monotonic_def tick_def split: sum.splits prod.splits)
  with eps show ?thesis by (simp add: get_endpoints_def)
qed

lemma init_canonical:
  assumes "list_all (\<lambda>e. canonical e \<noteq> None) es"
  shows "\<exists>s. init w es a b m = Inr s \<and> get_endpoints s = map (REndpoint \<circ> the \<circ> canonical) es"
proof -
  let ?eps = "map (the \<circ> canonical) es"
  let ?s0 = "\<lparr>endpoints = map REndpoint ?eps, pool = ConnectionPool [],
                   seed_connections = [], sniffer_timeout = None, sniff_timeout = None,
                   last_sniff = 0, max_retries = 0, sniff_on_connection_fail = None,
                   step = 0, next_id = 0, closed_ids = [], trace = []\<rparr>"
  have c: "convert_endpoints es = Inr ?eps" by (rule convert_endpoints_canonical [OF assms])
  have "list_all (\<lambda>c. hashable (endpoint c)) (connections (pool ?s0))"
    by (simp add: ConnectionPool_def)
  moreover have "list_all hashable (endpoints ?s0)" by (simp add: list_all_iff)
  ultimately obtain s1 where r: "reinitialize_endpoints w ?s0 = (Inr (), s1)"
    using reinitialize_endpoints_hashable by blast
  from c r obtain s where s: "init w es a b m = Inr s"
    by (simp add: init_def monotonic_def)
  from init_endpoints [OF s] c have "get_endpoints s = map REndpoint ?eps" by simp
  with s show ?thesis by auto
qed

subsection \<open>The retry loop once the attribute is assigned\<close>

text \<open>With \<^verbatim>\<open>_sniff_on_connection_fail\<close> assigned false from outside and no
  time-based sniffing, the loop does what its docstring says: one attempt per
  element of \<^verbatim>\<open>range(max_retries + 1)\<close>, each marking its connection dead, and
  the error of the last attempt at the end.\<close>

lemma attempts_all_refused:
  assumes st: "sniffer_timeout s = None" and fl: "sniff_on_connection_fail s = Some False"
    and mr: "max_retries s = N"
    and sel: "\<forall>k p. \<exists>c. select w k p = Inr c"
    and refuse: "\<forall>k c. \<exists>m. net w k c rq = Raises (ConnectionError m)"
    and i: "i \<le> N"
  shows "\<exists>cs c m s'. attempts w rq [i..N] s = (Inl (ConnectionError m), s') \<and>
           length cs = nat (N - i) \<and>
           trace s' = trace s @
             concat (map (\<lambda>c. [PoolGet, Request (cid c) rq, PoolMarkDead (cid c)]) (cs @ [c])) \<and>
           net w (step s' - 1) c rq = Raises (ConnectionError m)"
  using st fl mr i
proof (induction "nat (N - i)" arbitrary: i s)
  case 0
  then have iN: "i = N" by simp
  from sel obtain c where c: "select w (step s) (pool s) = Inr c" by blast
  let ?s1 = "tick (emit PoolGet s)"
  let ?s2 = "tick (emit (Request (cid c) rq) ?s1)"
  let ?s3 = "pool_mark_dead c ?s2"
  from refuse obtain m where m: "net w (step ?s1) c rq = Raises (ConnectionError m)" by blast
  have gc: "get_connection w s = (Inr c, ?s1)"
    using "0.prems"(1) c by (simp add: get_connection_def pool_get_connection_def)
  have rq: "conn_perform_request w c rq ?s1 = (Raises (ConnectionError m), ?s2)"
    using m by (simp add: conn_perform_request_def)
  have md: "mark_dead w c ?s2 = (Inr (), ?s3)"
    using "0.prems"(2) by (simp add: mark_dead_def Let_def pool_mark_dead_def tick_def emit_def)
  have mx: "max_retries ?s3 = N"
    using "0.prems"(3) by (simp add: pool_mark_dead_def tick_def emit_def)
  have "attempts w rq [i..N] s = (Inl (ConnectionError m), ?s3)"
    using iN gc rq md mx by (simp add: upto.simps)
  moreover have "trace ?s3 = trace s @ [PoolGet, Request (cid c) rq, PoolMarkDead (cid c)]"
    by (simp add: pool_mark_dead_def tick_def emit_def)
  moreover have "step ?s3 - 1 = step ?s1"
    by (simp add: pool_mark_dead_def tick_def emit_def)
  ultimately show ?case using m iN
    by (intro exI [of _ "[]"] exI [of _ c] exI [of _ m] exI [of _ ?s3]) simp
next
  case (Suc n)
  then have lt: "i < N" and n: "n = nat (N - (i + 1))" by linarith+
  from sel obtain c where c: "select w (step s) (pool s) = Inr c" by blast
  let ?s1 = "tick (emit PoolGet s)"
  let ?s2 = "tick (emit (Request (cid c) rq) ?s1)"
  let ?s3 = "pool_mark_dead c ?s2"
  from refuse obtain m where m: "net w (step ?s1) c rq = Raises (ConnectionError m)" by blast
  have gc: "get_connection w s = (Inr c, ?s1)"
    using Suc.prems(1) c by (simp add: get_connection_def pool_get_connection_def)
  have rq: "conn_perform_request w c rq ?s1 = (Raises (ConnectionError m), ?s2)"
    using m by (simp add: conn_perform_request_def)
  have md: "mark_dead w c ?s2 = (Inr (), ?s3)"
    using Suc.prems(2) by (simp add: mark_dead_def Let_def pool_mark_dead_def tick_def emit_def)
  have fr: "sniffer_timeout ?s3 = None" "sniff_on_connection_fail ?s3 = Some False"
    "max_retries ?s3 = N"
    using Suc.prems by (simp_all add: pool_mark_dead_def tick_def emit_def)
  have up: "[i..N] = i # [i + 1..N]" using lt by (simp add: upto.simps)
  have step: "attempts w rq [i..N] s = attempts w rq [i + 1..N] ?s3"
    using lt gc rq md fr(3) by (simp add: up)
  from Suc.hyps(1) [OF n fr] lt obtain cs c' m' s' where
    run: "attempts w rq [i + 1..N] ?s3 = (Inl (ConnectionError m'), s')"
    and len: "length cs = nat (N - (i + 1))"
    and tr: "trace s' = trace ?s3 @
             concat (map (\<lambda>c. [PoolGet, Request (cid c) rq, PoolMarkDead (cid c)]) (cs @ [c']))"
    and last: "net w (step s' - 1) c' rq = Raises (ConnectionError m')"
    by auto
  have t3: "trace ?s3 = trace s @ [PoolGet, Request (cid c) rq, PoolMarkDead (cid c)]"
    by (simp add: pool_mark_dead_def tick_def emit_def)
  have "length (c # cs) = nat (N - i)" using len lt by simp
  moreover have "trace s' = trace s @
      concat (map (\<lambda>c. [PoolGet, Request (cid c) rq, PoolMarkDead (cid c)]) ((c # cs) @ [c']))"
    using tr t3 by simp
  ultimately show ?case using step run last
    by (intro exI [of _ "c # cs"] exI [of _ c'] exI [of _ m'] exI [of _ s']) simp
qed

lemma perform_request_all_refused:
  assumes "sniffer_timeout s = None" and "sniff_on_connection_fail s = Some False"
    and "max_retries s = N" and "0 \<le> N"
    and "\<forall>k p. \<exists>c. select w k p = Inr c"
    and "\<forall>k c rq. \<exists>m. net w k c rq = Raises (ConnectionError m)"
  shows "\<exists>cs c m s' rq. perform_request w method url body t s = (Inl (ConnectionError m), s') \<and>
           length (cs @ [c]) = nat N + 1 \<and>
           trace s' = trace s @
             concat (map (\<lambda>c. [PoolGet, Request (cid c) rq, PoolMarkDead (cid c)]) (cs @ [c])) \<and>
           net w (step s' - 1) c rq = Raises (ConnectionError m)"
proof -
  let ?rq = "Req method url (map_option (json_dumps w) body) t"
  from assms(6) have "\<forall>k c. \<exists>m. net w k c ?rq = Raises (ConnectionError m)" by blast
  from attempts_all_refused [OF assms(1,2,3,5) this assms(4)]
  obtain cs c m s' where
    "attempts w ?rq [0..N] s = (Inl (ConnectionError m), s')"
    "length cs = nat (N - 0)"
    "trace s' = trace s @
       concat (map (\<lambda>c. [PoolGet, Request (cid c) ?rq, PoolMarkDead (cid c)]) (cs @ [c]))"
    "net w (step s' - 1) c ?rq = Raises (ConnectionError m)"
    by blast
  with assms(3) show ?thesis
    by (intro exI [of _ cs] exI [of _ c] exI [of _ m] exI [of _ s'] exI [of _ ?rq])
      (simp add: perform_request_def)
qed

end
